theory Spec2Isabelle
  imports Complex_Main
begin

section \<open>Target functions of the notebook \<open>Part-II-target-functions.ipynb\<close>\<close>

text \<open>
  The notebook defines the Bernstein polynomials, their derivatives and tensor products,
  the integrated sign functions and a weighted sum of both families. Every function is
  written once in Python and is called with a float as well as with a numpy array for
  \<open>x\<close>. The embedding keeps that: each function is defined once, over a type of
  samples, and is used at two types:
  \<^item> \<open>real\<close> for a scalar argument;
  \<^item> \<open>'i ndarray\<close> for a numpy array, given by its entries over the index set
    \<open>'i\<close> (the index type is the shape, so two arrays of one type have matching
    shapes; broadcasting between arrays of different shapes is outside the model).

  In these definitions floating-point numbers are modelled by the reals: arithmetic is
  exact, and rounding, overflow, infinities and NaN are not represented. That is enough
  for the properties that say which expression a function computes. The properties that
  depend on rounding or on the range of a double (an exact constant, a range of values,
  the absence of an error) are stated on a second model of \<open>bernstein\<close>, in IEEE
  binary64 arithmetic (\<open>bernstein_f64\<close> below). Python's unbounded integers are
  \<open>int\<close>. An exception is a value \<open>Inl e\<close> of the result type.
\<close>

subsection \<open>Exceptions\<close>

datatype error =
    AssertionError  \<comment> \<open>a failed \<open>assert\<close>\<close>
  | ValueError      \<comment> \<open>\<open>math.factorial\<close> of a negative integer\<close>
  | OverflowError   \<comment> \<open>a float power whose result exceeds the double range\<close>

subsection \<open>Arrays and their elementwise arithmetic\<close>

datatype 'i ndarray = Array (elem: "'i \<Rightarrow> real")

instantiation ndarray :: (type) "{zero, one, plus, minus, times, sgn, scaleR}"
begin

definition zero_ndarray :: "'a ndarray" where
  "zero_ndarray = Array (\<lambda>i. 0)"

definition one_ndarray :: "'a ndarray" where
  "one_ndarray = Array (\<lambda>i. 1)"

definition plus_ndarray :: "'a ndarray \<Rightarrow> 'a ndarray \<Rightarrow> 'a ndarray" where
  "plus_ndarray a b = Array (\<lambda>i. elem a i + elem b i)"

definition minus_ndarray :: "'a ndarray \<Rightarrow> 'a ndarray \<Rightarrow> 'a ndarray" where
  "minus_ndarray a b = Array (\<lambda>i. elem a i - elem b i)"

definition times_ndarray :: "'a ndarray \<Rightarrow> 'a ndarray \<Rightarrow> 'a ndarray" where
  "times_ndarray a b = Array (\<lambda>i. elem a i * elem b i)"

definition sgn_ndarray :: "'a ndarray \<Rightarrow> 'a ndarray" where
  "sgn_ndarray a = Array (\<lambda>i. sgn (elem a i))"

definition scaleR_ndarray :: "real \<Rightarrow> 'a ndarray \<Rightarrow> 'a ndarray" where
  "scaleR_ndarray c a = Array (\<lambda>i. c * elem a i)"

instance ..

end

instance ndarray :: (type) power ..

subsection \<open>Library functions\<close>


subsection \<open>Bernstein polynomials\<close>



subsection \<open>Tensor products of Bernstein polynomials\<close>



subsection \<open>Integrated sign functions\<close>




subsection \<open>Weighted sum of both families\<close>


subsection \<open>IEEE binary64 arithmetic\<close>

text \<open>
  A Python float, and an entry of a float64 array, is an IEEE binary64 number: a finite
  real of the form \<open>m * 2 ^ e\<close> with \<open>\<bar>m\<bar> < 2 ^ 53\<close> and \<open>e \<ge> -1074\<close>, an infinity
  or NaN. Signed zeros are not distinguished.
\<close>

datatype double = Finite real | PosInf | NegInf | NaN

text \<open>Rounding a real to the nearest integer, ties to the even one.\<close>

definition rne :: "real \<Rightarrow> int" where
  "rne z =
     (let f = \<lfloor>z\<rfloor>; d = z - of_int f
      in if d < 1 / 2 then f else if 1 / 2 < d then f + 1 else if even f then f else f + 1)"

definition pow2 :: "int \<Rightarrow> real" where
  "pow2 e = (if 0 \<le> e then 2 ^ nat e else 1 / 2 ^ nat (- e))"

text \<open>
  The exponent of the last mantissa bit of the binade of \<open>r\<close>: 52 below the exponent
  of \<open>r\<close>, and never below that of the subnormal numbers.
\<close>

definition ulp_exp :: "real \<Rightarrow> int" where
  "ulp_exp r = max (\<lfloor>log 2 \<bar>r\<bar>\<rfloor> - 52) (- 1074)"

text \<open>
  Round to nearest, ties to even, with an unbounded exponent; \<open>d_round\<close> then gives
  an infinity when the rounded value is beyond the largest double.
\<close>

definition round_f64 :: "real \<Rightarrow> real" where
  "round_f64 r = (if r = 0 then 0 else of_int (rne (r / pow2 (ulp_exp r))) * pow2 (ulp_exp r))"

definition f64_max :: real where
  "f64_max = (2 ^ 53 - 1) * 2 ^ 971"

definition d_round :: "real \<Rightarrow> double" where
  "d_round r =
     (let v = round_f64 r
      in if f64_max < v then PosInf else if v < - f64_max then NegInf else Finite v)"

text \<open>
  Multiplication, addition and subtraction round the exact result; the cases of
  infinities and NaN follow IEEE 754.
\<close>

definition inf_times :: "real \<Rightarrow> double" where
  "inf_times a = (if a = 0 then NaN else if 0 < a then PosInf else NegInf)"

fun d_mul :: "double \<Rightarrow> double \<Rightarrow> double" where
  "d_mul (Finite a) (Finite b) = d_round (a * b)"
| "d_mul NaN _ = NaN"
| "d_mul _ NaN = NaN"
| "d_mul (Finite a) PosInf = inf_times a"
| "d_mul PosInf (Finite a) = inf_times a"
| "d_mul (Finite a) NegInf = inf_times (- a)"
| "d_mul NegInf (Finite a) = inf_times (- a)"
| "d_mul PosInf PosInf = PosInf"
| "d_mul NegInf NegInf = PosInf"
| "d_mul PosInf NegInf = NegInf"
| "d_mul NegInf PosInf = NegInf"

fun d_add :: "double \<Rightarrow> double \<Rightarrow> double" where
  "d_add (Finite a) (Finite b) = d_round (a + b)"
| "d_add NaN _ = NaN"
| "d_add _ NaN = NaN"
| "d_add PosInf NegInf = NaN"
| "d_add NegInf PosInf = NaN"
| "d_add PosInf _ = PosInf"
| "d_add _ PosInf = PosInf"
| "d_add NegInf _ = NegInf"
| "d_add _ NegInf = NegInf"

fun d_neg :: "double \<Rightarrow> double" where
  "d_neg (Finite a) = Finite (- a)"
| "d_neg PosInf = NegInf"
| "d_neg NegInf = PosInf"
| "d_neg NaN = NaN"

definition d_sub :: "double \<Rightarrow> double \<Rightarrow> double" where
  "d_sub a b = d_add a (d_neg b)"

subsection \<open>The Bernstein polynomial in double precision\<close>

text \<open>
  Python's \<open>x ** k\<close> for a float \<open>x\<close> and an integer \<open>k \<ge> 0\<close>: \<open>1.0\<close> for \<open>k = 0\<close>,
  the rounded power otherwise, and \<open>OverflowError\<close> when a finite \<open>x\<close> gives a result
  beyond the double range. The power is taken as correctly rounded (for \<open>k \<le> 2\<close> it
  is: \<open>x\<close> itself and the product \<open>x * x\<close>). On a numpy array the same overflow
  gives \<open>inf\<close> and no exception; the model is the one of a Python float.
\<close>

definition py_pow :: "double \<Rightarrow> nat \<Rightarrow> error + double" where
  "py_pow x k =
     (if k = 0 then Inr (Finite 1)
      else
        (case x of
           Finite a \<Rightarrow>
             (case d_round (a ^ k) of Finite v \<Rightarrow> Inr (Finite v) | _ \<Rightarrow> Inl OverflowError)
         | PosInf \<Rightarrow> Inr PosInf
         | NegInf \<Rightarrow> Inr (if even k then PosInf else NegInf)
         | NaN \<Rightarrow> Inr NaN))"

text \<open>
  \<open>scipy.special.binom(n, k)\<close> returns a double: the binomial coefficient rounded, and
  \<open>inf\<close> when it is beyond the double range.
\<close>

definition binom_f64 :: "int \<Rightarrow> int \<Rightarrow> double" where
  "binom_f64 n k = d_round (real (nat n choose nat k))"

text \<open>
  \<open>bernstein\<close> once more, line by line, in this arithmetic:
  \<^verbatim>\<open>
      assert (0<=k and k<=n), ...
      return binom(n, k)*(x**k)*((1-x)**(n-k))
  \<close>
\<close>

definition bernstein_f64 :: "double \<Rightarrow> int \<Rightarrow> int \<Rightarrow> error + double" where
  "bernstein_f64 x k n =
     (if 0 \<le> k \<and> k \<le> n
      then
        (case py_pow x (nat k) of
           Inl e \<Rightarrow> Inl e
         | Inr p \<Rightarrow>
            (case py_pow (d_sub (Finite 1) x) (nat (n - k)) of
               Inl e \<Rightarrow> Inl e
             | Inr q \<Rightarrow> Inr (d_mul (d_mul (binom_f64 n k) p) q)))
      else Inl AssertionError)"

text \<open>
  The sum of the partition-of-unity property, \<open>k = 0, \<dots>, j\<close> in this order, as
  Python's \<open>sum(bernstein(x, k, n) for k in range(j + 1))\<close> adds it up from \<open>0\<close>.
\<close>

primrec bernstein_sum_f64 :: "double \<Rightarrow> int \<Rightarrow> nat \<Rightarrow> error + double" where
  "bernstein_sum_f64 x n 0 =
     (case bernstein_f64 x 0 n of
        Inl e \<Rightarrow> Inl e
      | Inr t \<Rightarrow> Inr (d_add (Finite 0) t))"
| "bernstein_sum_f64 x n (Suc j) =
     (case bernstein_sum_f64 x n j of
        Inl e \<Rightarrow> Inl e
      | Inr s \<Rightarrow>
         (case bernstein_f64 x (int (Suc j)) n of
            Inl e \<Rightarrow> Inl e
          | Inr t \<Rightarrow> Inr (d_add s t)))"

subsection \<open>The derivative as the specification words it\<close>


section \<open>Properties\<close>


subsection \<open>Unfolding the definitions at scalars and at arrays\<close>









subsection \<open>Binomial coefficients and Bernstein polynomials over the naturals\<close>

lemma bern_sum_nat: "(\<Sum>k\<le>n. real (n choose k) * x ^ k * (1 - x) ^ (n - k)) = 1"
  using binomial_ring [of x "1 - x" n] by simp







subsection \<open>The Bernstein polynomial and its derivative\<close>





subsection \<open>Tensor products\<close>



subsection \<open>Integrated sign functions\<close>








subsection \<open>Weighted sum\<close>



section \<open>Properties in double precision\<close>

subsection \<open>Rounding\<close>

lemma rne_bounds: "\<bar>of_int (rne z) - z\<bar> \<le> 1 / 2"
  unfolding rne_def Let_def by (auto simp: abs_le_iff)

lemma rne_nonneg: "0 \<le> z \<Longrightarrow> 0 \<le> rne z"
  unfolding rne_def Let_def by (auto simp: zero_le_floor)

lemma rne_le_int:
  assumes "z \<le> of_int N"
  shows "rne z \<le> N"
proof (cases "z = of_int N")
  case True
  then show ?thesis by (simp add: rne_def)
next
  case False
  with assms have lt: "z < of_int N" by simp
  then have "\<lfloor>z\<rfloor> < N" by (simp add: floor_less_iff)
  then have "\<lfloor>z\<rfloor> + 1 \<le> N" by simp
  moreover have "rne z \<le> \<lfloor>z\<rfloor> + 1" unfolding rne_def Let_def by simp
  ultimately show ?thesis by linarith
qed



lemma pow2_pos: "0 < pow2 e"
  by (simp add: pow2_def)

lemma pow2_powr: "pow2 e = 2 powr (real_of_int e)"
  by (simp add: pow2_def powr_int)

lemma pow2_mono: "a \<le> b \<Longrightarrow> pow2 a \<le> pow2 b"
  by (simp add: pow2_powr)


lemma pow2_shift: "pow2 (int m - int s) * 2 ^ s = 2 ^ m"
proof -
  have "pow2 (int m - int s) * 2 ^ s = 2 powr (real_of_int (int m - int s)) * 2 powr (real s)"
    by (simp add: pow2_powr powr_realpow)
  also have "\<dots> = 2 powr (real m)"
    by (simp add: powr_add [symmetric])
  finally show ?thesis by (simp add: powr_realpow)
qed

lemma ulp_exp_eq:
  assumes "pow2 (e + 52) \<le> \<bar>r\<bar>" "\<bar>r\<bar> < pow2 (e + 53)" "- 1074 \<le> e"
  shows "ulp_exp r = e"
proof -
  have pos: "0 < \<bar>r\<bar>" using assms(1) pow2_pos [of "e + 52"] by linarith
  have "\<lfloor>log 2 \<bar>r\<bar>\<rfloor> = e + 52"
    using assms(1,2) pos
    by (subst floor_log_eq_powr_iff) (simp_all add: pow2_powr add.commute add.left_commute)
  then show ?thesis using assms(3) by (simp add: ulp_exp_def)
qed

lemma ulp_exp_le:
  assumes "r \<noteq> 0" "\<bar>r\<bar> < pow2 (j + 1)" "- 1022 \<le> j"
  shows "ulp_exp r \<le> j - 52"
proof -
  have "log 2 \<bar>r\<bar> < real_of_int (j + 1)"
    using assms(1,2) by (simp add: pow2_powr log_less_iff)
  then have "\<lfloor>log 2 \<bar>r\<bar>\<rfloor> < j + 1" by (simp only: floor_less_iff)
  then show ?thesis using assms(3) by (simp add: ulp_exp_def)
qed

lemma round_f64_error:
  assumes "\<bar>r\<bar> < pow2 (j + 1)" "- 1022 \<le> j"
  shows "\<bar>round_f64 r - r\<bar> \<le> pow2 (j - 52) / 2"
proof (cases "r = 0")
  case True
  then show ?thesis using pow2_pos [of "j - 52"] by (simp add: round_f64_def)
next
  case False
  define P where "P = pow2 (ulp_exp r)"
  have P: "0 < P" "P \<le> pow2 (j - 52)"
    unfolding P_def using ulp_exp_le [OF False assms] by (simp_all add: pow2_pos pow2_mono)
  have "round_f64 r - r = (of_int (rne (r / P)) - r / P) * P"
    using False P(1) by (simp add: round_f64_def P_def field_simps)
  then have "\<bar>round_f64 r - r\<bar> = \<bar>of_int (rne (r / P)) - r / P\<bar> * P"
    using P(1) by (simp add: abs_mult)
  also have "\<dots> \<le> 1 / 2 * P"
    using P(1) by (intro mult_right_mono rne_bounds) simp
  also have "\<dots> \<le> pow2 (j - 52) / 2" using P(2) by simp
  finally show ?thesis .
qed

lemma round_f64_nonneg: "0 \<le> r \<Longrightarrow> 0 \<le> round_f64 r"
  by (simp add: round_f64_def rne_nonneg pow2_pos less_imp_le)

lemma round_f64_one: "round_f64 1 = 1"
proof -
  have "ulp_exp 1 = - 52" by (rule ulp_exp_eq) (simp_all add: pow2_def)
  then show ?thesis by (simp add: round_f64_def pow2_def rne_def)
qed

lemma round_f64_le_one:
  assumes "r \<le> 1"
  shows "round_f64 r \<le> 1"
proof (cases "r \<le> 0")
  case True
  then have "r / pow2 (ulp_exp r) \<le> of_int 0"
    by (simp add: divide_le_0_iff pow2_pos less_imp_le)
  then have "rne (r / pow2 (ulp_exp r)) \<le> 0" by (rule rne_le_int)
  then have "of_int (rne (r / pow2 (ulp_exp r))) * pow2 (ulp_exp r) \<le> 0"
    by (simp add: mult_le_0_iff pow2_pos less_imp_le)
  then show ?thesis by (simp add: round_f64_def)
next
  case False
  then have r: "0 < r" "r \<noteq> 0" by simp_all
  have "\<bar>r\<bar> < pow2 (0 + 1)" using assms r by (simp add: pow2_def)
  then have e: "ulp_exp r \<le> 0 - 52" by (intro ulp_exp_le r(2)) simp_all
  define s where "s = nat (- ulp_exp r)"
  have P: "pow2 (ulp_exp r) = 1 / 2 ^ s" using e by (simp add: pow2_def s_def)
  have "r / pow2 (ulp_exp r) = r * 2 ^ s" by (simp add: P)
  also have "\<dots> \<le> 1 * 2 ^ s" using assms by (intro mult_right_mono) simp_all
  finally have "r / pow2 (ulp_exp r) \<le> of_int (2 ^ s)" by simp
  then have "rne (r / pow2 (ulp_exp r)) \<le> 2 ^ s" by (rule rne_le_int)
  then have "real_of_int (rne (r / pow2 (ulp_exp r))) \<le> 2 ^ s"
    by (metis of_int_le_iff of_int_numeral of_int_power)
  then have "real_of_int (rne (r / pow2 (ulp_exp r))) * (1 / 2 ^ s) \<le> 2 ^ s * (1 / 2 ^ s)"
    by (intro mult_right_mono) simp_all
  then show ?thesis using r(2) by (simp add: round_f64_def P)
qed

lemma f64_max_large: "2049 \<le> f64_max"
proof -
  have "(2049::real) \<le> 2 ^ 53 - 1" by simp
  also have "\<dots> = (2 ^ 53 - 1) * 1" by simp
  also have "\<dots> \<le> (2 ^ 53 - 1) * 2 ^ 971" by (intro mult_left_mono) simp_all
  finally show ?thesis by (simp add: f64_max_def)
qed

lemma f64_max_bounds: "2 ^ 54 \<le> f64_max" "f64_max < 2 ^ 1024"
proof -
  have "(2::real) ^ 54 = 2 ^ 52 * 2 ^ 2" by simp
  also have "\<dots> \<le> (2 ^ 53 - 1) * 2 ^ 971"
    by (intro mult_mono power_increasing) simp_all
  finally show "2 ^ 54 \<le> f64_max" by (simp only: f64_max_def)
  have "(2 ^ 53 - 1) * 2 ^ 971 < (2::real) ^ 53 * 2 ^ 971"
    by (intro mult_strict_right_mono) simp_all
  also have "\<dots> = 2 ^ (53 + 971)" by (rule power_add [symmetric])
  finally show "f64_max < 2 ^ 1024" by (simp add: f64_max_def)
qed

lemma d_round_small:
  assumes "\<bar>r\<bar> < 2048"
  shows "d_round r = Finite (round_f64 r)" "\<bar>round_f64 r - r\<bar> \<le> 1 / 2 ^ 43"
proof -
  have "\<bar>r\<bar> < pow2 (10 + 1)" using assms by (simp add: pow2_def)
  then have "\<bar>round_f64 r - r\<bar> \<le> pow2 (10 - 52) / 2" by (rule round_f64_error) simp
  then show err: "\<bar>round_f64 r - r\<bar> \<le> 1 / 2 ^ 43" by (simp add: pow2_def)
  have "(1::real) / 2 ^ 43 \<le> 1" by simp
  with err assms have "\<bar>round_f64 r\<bar> < 2049" by linarith
  with f64_max_large show "d_round r = Finite (round_f64 r)"
    by (simp add: d_round_def Let_def abs_less_iff)
qed

lemma round_f64_eval_frac:
  assumes "2 ^ 52 \<le> \<bar>r\<bar> * 2 ^ s" "\<bar>r\<bar> * 2 ^ s < 2 ^ 53" "s \<le> 1074" "0 < s"
  shows "round_f64 r = of_int (rne (r * 2 ^ s)) / 2 ^ s"
proof -
  have r: "r \<noteq> 0" using assms(1) by auto
  have "pow2 (int 52 - int s) * 2 ^ s \<le> \<bar>r\<bar> * 2 ^ s"
    using assms(1) by (simp only: pow2_shift)
  then have a: "pow2 (- int s + 52) \<le> \<bar>r\<bar>" by simp
  have "\<bar>r\<bar> * 2 ^ s < pow2 (int 53 - int s) * 2 ^ s"
    using assms(2) by (simp only: pow2_shift)
  then have b: "\<bar>r\<bar> < pow2 (- int s + 53)" by simp
  have "ulp_exp r = - int s" using a b assms(3) by (intro ulp_exp_eq) simp_all
  then show ?thesis using r assms(4) by (simp add: round_f64_def pow2_def)
qed

lemma d_round_frac:
  assumes "2 ^ 52 \<le> \<bar>r\<bar> * 2 ^ s" "\<bar>r\<bar> * 2 ^ s < 2 ^ 53" "s \<le> 1074" "0 < s"
    and "rne (r * 2 ^ s) = m" "v = of_int m / 2 ^ s"
  shows "d_round r = Finite v"
proof -
  have v: "round_f64 r = v"
    using round_f64_eval_frac [OF assms(1-4)] assms(5,6) by simp
  have "\<bar>of_int m - r * 2 ^ s\<bar> \<le> 1 / 2" using rne_bounds [of "r * 2 ^ s"] assms(5) by simp
  moreover have "\<bar>r * 2 ^ s\<bar> < 2 ^ 53" using assms(2) by (simp add: abs_mult)
  ultimately have m: "\<bar>real_of_int m\<bar> \<le> 2 ^ 53 + 1" by linarith
  have "\<bar>v\<bar> = \<bar>real_of_int m\<bar> / 2 ^ s" unfolding assms(6) by (simp add: abs_divide)
  also have "\<dots> \<le> \<bar>real_of_int m\<bar> / 1" by (intro frac_le) simp_all
  also have "\<dots> \<le> 2 ^ 53 + 1" using m by simp
  also have "\<dots> \<le> (2::real) ^ 54" by simp
  finally have "\<bar>v\<bar> \<le> f64_max" using f64_max_bounds(1) by linarith
  then show ?thesis by (simp add: d_round_def Let_def v abs_le_iff)
qed

lemma d_round_one: "d_round 1 = Finite 1"
  by (rule d_round_frac [where s = 52 and m = "2 ^ 52"]) (simp_all add: rne_def power2_eq_square)


lemma d_mul_small:
  assumes "\<bar>a * b\<bar> < 2048"
  shows "\<exists>t. d_mul (Finite a) (Finite b) = Finite t \<and> t = round_f64 (a * b)
             \<and> \<bar>t - a * b\<bar> \<le> 1 / 2 ^ 43"
  using d_round_small [OF assms] by simp

lemma d_add_small:
  assumes "\<bar>a + b\<bar> < 2048"
  shows "\<exists>s. d_add (Finite a) (Finite b) = Finite s \<and> \<bar>s - (a + b)\<bar> \<le> 1 / 2 ^ 43"
  using d_round_small [OF assms] by simp

subsection \<open>A binomial coefficient beyond the double range\<close>




subsection \<open>One term in double precision\<close>

lemma py_pow_unit:
  assumes "0 \<le> a" "a \<le> 1"
  shows "\<exists>p. py_pow (Finite a) m = Inr (Finite p) \<and> 0 \<le> p \<and> p \<le> 1
             \<and> \<bar>p - a ^ m\<bar> \<le> 1 / 2 ^ 43
             \<and> (m = 0 \<longrightarrow> p = 1) \<and> (a ^ m = 1 \<longrightarrow> p = 1)"
proof (cases "m = 0")
  case True
  then show ?thesis by (simp add: py_pow_def)
next
  case False
  have r: "0 \<le> a ^ m" "a ^ m \<le> 1" using assms by (simp_all add: power_le_one)
  then have small: "\<bar>a ^ m\<bar> < 2048" by simp
  have "py_pow (Finite a) m = Inr (Finite (round_f64 (a ^ m)))"
    using d_round_small(1) [OF small] False by (simp add: py_pow_def)
  moreover have "0 \<le> round_f64 (a ^ m)" using r(1) by (rule round_f64_nonneg)
  moreover have "round_f64 (a ^ m) \<le> 1" using r(2) by (rule round_f64_le_one)
  moreover have "\<bar>round_f64 (a ^ m) - a ^ m\<bar> \<le> 1 / 2 ^ 43"
    using small by (rule d_round_small(2))
  moreover have "a ^ m = 1 \<longrightarrow> round_f64 (a ^ m) = 1" by (simp add: round_f64_one)
  ultimately show ?thesis using False by simp
qed

lemma py_pow_eval:
  assumes "k \<noteq> 0" "d_round (a ^ k) = Finite v"
  shows "py_pow (Finite a) k = Inr (Finite v)"
  using assms by (simp add: py_pow_def)


lemma d_sub_one_unit:
  assumes "0 \<le> x" "x \<le> 1"
  shows "\<exists>y. d_sub (Finite 1) (Finite x) = Finite y \<and> 0 \<le> y \<and> y \<le> 1
             \<and> \<bar>y - (1 - x)\<bar> \<le> 1 / 2 ^ 43"
proof -
  have small: "\<bar>1 + - x\<bar> < 2048" using assms by simp
  have "d_sub (Finite 1) (Finite x) = Finite (round_f64 (1 + - x))"
    using d_round_small(1) [OF small] by (simp add: d_sub_def)
  moreover have "0 \<le> round_f64 (1 + - x)" using assms by (intro round_f64_nonneg) simp
  moreover have "round_f64 (1 + - x) \<le> 1" using assms by (intro round_f64_le_one) simp
  moreover have "\<bar>round_f64 (1 + - x) - (1 - x)\<bar> \<le> 1 / 2 ^ 43"
    using d_round_small(2) [OF small] by simp
  ultimately show ?thesis by blast
qed

lemma power_diff_bound:
  fixes a b :: real
  assumes "0 \<le> a" "a \<le> 1" "0 \<le> b" "b \<le> 1"
  shows "\<bar>a ^ m - b ^ m\<bar> \<le> real m * \<bar>a - b\<bar>"
proof (induction m)
  case 0
  show ?case by simp
next
  case (Suc m)
  have "a ^ Suc m - b ^ Suc m = a * (a ^ m - b ^ m) + (a - b) * b ^ m"
    by (simp add: algebra_simps)
  then have "\<bar>a ^ Suc m - b ^ Suc m\<bar> \<le> \<bar>a * (a ^ m - b ^ m)\<bar> + \<bar>(a - b) * b ^ m\<bar>"
    by (simp only: abs_triangle_ineq)
  also have "\<bar>a * (a ^ m - b ^ m)\<bar> \<le> 1 * \<bar>a ^ m - b ^ m\<bar>"
    unfolding abs_mult using assms by (intro mult_right_mono) simp_all
  also have "\<bar>(a - b) * b ^ m\<bar> \<le> \<bar>a - b\<bar> * 1"
    unfolding abs_mult using assms by (intro mult_left_mono) (simp_all add: power_le_one)
  finally show ?case using Suc.IH by (simp add: algebra_simps)
qed

lemma abs_mult_diff:
  fixes a b a' b' :: real
  shows "\<bar>a' * b' - a * b\<bar> \<le> \<bar>a' - a\<bar> * \<bar>b'\<bar> + \<bar>a\<bar> * \<bar>b' - b\<bar>"
proof -
  have "a' * b' - a * b = (a' - a) * b' + a * (b' - b)" by (simp add: algebra_simps)
  then have "\<bar>a' * b' - a * b\<bar> \<le> \<bar>(a' - a) * b'\<bar> + \<bar>a * (b' - b)\<bar>"
    by (simp only: abs_triangle_ineq)
  then show ?thesis by (simp only: abs_mult)
qed

lemma bern_interior_le:
  assumes "0 < K" "K < N" "N \<le> 10" "0 \<le> x" "x \<le> 1"
  shows "real (N choose K) * x ^ K * (1 - x) ^ (N - K) \<le> 1 - 1 / 2 ^ 10"
proof -
  let ?f = "\<lambda>j. real (N choose j) * x ^ j * (1 - x) ^ (N - j)"
  have "sum ?f {0, K, N} \<le> sum ?f {..N}"
    using assms by (intro sum_mono2) auto
  then have "?f 0 + ?f K + ?f N \<le> 1"
    using assms(1,2) by (simp add: bern_sum_nat)
  then have le: "?f K \<le> 1 - ((1 - x) ^ N + x ^ N)" by simp
  have half: "1 / 2 ^ N \<le> (1 - x) ^ N + x ^ N"
  proof (cases "1 / 2 \<le> x")
    case True
    then have "(1 / 2) ^ N \<le> x ^ N" by (intro power_mono) simp_all
    moreover have "0 \<le> (1 - x) ^ N" using assms by simp
    ultimately show ?thesis by (simp add: power_divide)
  next
    case False
    then have "(1 / 2) ^ N \<le> (1 - x) ^ N" by (intro power_mono) simp_all
    moreover have "0 \<le> x ^ N" using assms by simp
    ultimately show ?thesis by (simp add: power_divide)
  qed
  have "(2::real) ^ N \<le> 2 ^ 10" using assms(3) by (intro power_increasing) simp_all
  then have ten: "(1::real) / 2 ^ 10 \<le> 1 / 2 ^ N"
    by (intro divide_left_mono) simp_all
  show ?thesis using le half ten by linarith
qed

lemma binom_f64_small:
  assumes "0 \<le> k" "k \<le> n" "n \<le> 10"
  shows "\<exists>c. binom_f64 n k = Finite c \<and> 0 \<le> c
             \<and> \<bar>c - real (nat n choose nat k)\<bar> \<le> 1 / 2 ^ 43
             \<and> real (nat n choose nat k) \<le> 1024
             \<and> (nat n choose nat k = 1 \<longrightarrow> c = 1)"
proof -
  let ?C = "real (nat n choose nat k)"
  have "nat n choose nat k \<le> 2 ^ nat n" by (rule binomial_le_pow2)
  also have "\<dots> \<le> 2 ^ 10" using assms by (intro power_increasing) simp_all
  finally have C: "?C \<le> 1024" by simp
  then have small: "\<bar>?C\<bar> < 2048" by simp
  have "binom_f64 n k = Finite (round_f64 ?C)"
    using d_round_small(1) [OF small] by (simp add: binom_f64_def)
  moreover have "0 \<le> round_f64 ?C" by (intro round_f64_nonneg) simp
  moreover have "\<bar>round_f64 ?C - ?C\<bar> \<le> 1 / 2 ^ 43" using small by (rule d_round_small(2))
  moreover have "nat n choose nat k = 1 \<longrightarrow> round_f64 ?C = 1" by (simp add: round_f64_one)
  ultimately show ?thesis using C by blast
qed

lemma bernstein_f64_eval:
  assumes "0 \<le> k" "k \<le> n" "nat k = K" "nat (n - k) = M"
    and "py_pow x K = Inr p" "d_sub (Finite 1) x = y" "py_pow y M = Inr q"
    and "binom_f64 n k = c" "d_mul c p = t1" "d_mul t1 q = t"
  shows "bernstein_f64 x k n = Inr t"
  unfolding bernstein_f64_def using assms by (simp del: d_mul.simps)


lemma bernstein_f64_term:
  assumes "0 \<le> k" "k \<le> n" "n \<le> 10" "0 \<le> x" "x \<le> 1"
  shows "\<exists>t. bernstein_f64 (Finite x) k n = Inr (Finite t) \<and> 0 \<le> t \<and> t \<le> 1
             \<and> \<bar>t - real (nat n choose nat k) * x ^ nat k * (1 - x) ^ nat (n - k)\<bar>
                   \<le> 1 / 2 ^ 29"
proof -
  define K where "K = nat k"
  define M where "M = nat (n - k)"
  define C where "C = real (nat n choose nat k)"
  define d :: real where "d = 1 / 2 ^ 43"
  have d: "0 \<le> d" "d \<le> 1" by (simp_all add: d_def)
  have M10: "real M \<le> 10" using assms by (simp add: M_def)
  obtain y where y: "d_sub (Finite 1) (Finite x) = Finite y" "0 \<le> y" "y \<le> 1"
      "\<bar>y - (1 - x)\<bar> \<le> d"
    using d_sub_one_unit [OF assms(4,5)] unfolding d_def by blast
  obtain p where p: "py_pow (Finite x) K = Inr (Finite p)" "0 \<le> p" "p \<le> 1"
      "\<bar>p - x ^ K\<bar> \<le> d" "K = 0 \<longrightarrow> p = 1"
    using py_pow_unit [OF assms(4,5), of K] unfolding d_def by blast
  obtain q where q: "py_pow (Finite y) M = Inr (Finite q)" "0 \<le> q" "q \<le> 1"
      "\<bar>q - y ^ M\<bar> \<le> d" "M = 0 \<longrightarrow> q = 1"
    using py_pow_unit [OF y(2,3), of M] unfolding d_def by blast
  obtain c where c: "binom_f64 n k = Finite c" "0 \<le> c" "\<bar>c - C\<bar> \<le> d" "C \<le> 1024"
      "nat n choose nat k = 1 \<longrightarrow> c = 1"
    using binom_f64_small [OF assms(1,2,3)] unfolding d_def C_def by blast
  have C0: "0 \<le> C" by (simp add: C_def)
  have xK: "0 \<le> x ^ K" "x ^ K \<le> 1" using assms by (simp_all add: power_le_one)
  have xM: "0 \<le> (1 - x) ^ M" "(1 - x) ^ M \<le> 1" using assms by (simp_all add: power_le_one)
  \<comment> \<open>the second power\<close>
  have "\<bar>y ^ M - (1 - x) ^ M\<bar> \<le> real M * \<bar>y - (1 - x)\<bar>"
    using y(2,3) assms(4,5) by (intro power_diff_bound) simp_all
  also have "\<dots> \<le> 10 * d"
    using M10 y(4) by (intro mult_mono) simp_all
  finally have "\<bar>y ^ M - (1 - x) ^ M\<bar> \<le> 10 * d" .
  with q(4) have qe: "\<bar>q - (1 - x) ^ M\<bar> \<le> 11 * d" by linarith
  \<comment> \<open>the first product\<close>
  have cp: "0 \<le> c * p" "c * p \<le> c" using c(2) p(2,3) by (simp_all add: mult_left_le)
  have c_le: "c \<le> 1024 + d" using c(3,4) by linarith
  have "\<bar>c * p\<bar> < 2048" using cp c_le d by linarith
  then obtain t1 where t1: "d_mul (Finite c) (Finite p) = Finite t1" "t1 = round_f64 (c * p)"
      "\<bar>t1 - c * p\<bar> \<le> d"
    using d_mul_small [of c p] unfolding d_def by blast
  have t1_nonneg: "0 \<le> t1" unfolding t1(2) using cp(1) by (rule round_f64_nonneg)
  have "\<bar>c * p - C * x ^ K\<bar> \<le> \<bar>c - C\<bar> * \<bar>p\<bar> + \<bar>C\<bar> * \<bar>p - x ^ K\<bar>"
    by (rule abs_mult_diff)
  also have "\<dots> \<le> d * 1 + 1024 * d"
    using c(3,4) C0 p(2,3,4) d by (intro add_mono mult_mono) simp_all
  finally have "\<bar>c * p - C * x ^ K\<bar> \<le> 1025 * d" by simp
  with t1(3) have t1e: "\<bar>t1 - C * x ^ K\<bar> \<le> 1026 * d" by linarith
  have "C * x ^ K \<le> 1024 * 1" using C0 c(4) xK by (intro mult_mono) simp_all
  then have CxK: "0 \<le> C * x ^ K" "C * x ^ K \<le> 1024" using C0 xK by simp_all
  \<comment> \<open>the second product\<close>
  have t1_le: "t1 \<le> 1024 + 1026 * d" using t1e CxK by linarith
  have t1q: "0 \<le> t1 * q" "t1 * q \<le> t1" using t1_nonneg q(2,3) by (simp_all add: mult_left_le)
  have "\<bar>t1 * q\<bar> < 2048" using t1q t1_le d by (simp add: d_def)
  then obtain t where t: "d_mul (Finite t1) (Finite q) = Finite t" "t = round_f64 (t1 * q)"
      "\<bar>t - t1 * q\<bar> \<le> d"
    using d_mul_small [of t1 q] unfolding d_def by blast
  have t_nonneg: "0 \<le> t" unfolding t(2) using t1q(1) by (rule round_f64_nonneg)
  have "\<bar>t1 * q - C * x ^ K * (1 - x) ^ M\<bar>
          \<le> \<bar>t1 - C * x ^ K\<bar> * \<bar>q\<bar> + \<bar>C * x ^ K\<bar> * \<bar>q - (1 - x) ^ M\<bar>"
    by (rule abs_mult_diff)
  also have "\<dots> \<le> (1026 * d) * 1 + 1024 * (11 * d)"
    using t1e q(2,3) qe CxK d by (intro add_mono mult_mono) simp_all
  finally have "\<bar>t1 * q - C * x ^ K * (1 - x) ^ M\<bar> \<le> 12290 * d" by simp
  with t(3) have "\<bar>t - C * x ^ K * (1 - x) ^ M\<bar> \<le> 12291 * d" by linarith
  also have "\<dots> \<le> 1 / 2 ^ 29" by (simp add: d_def)
  finally have te: "\<bar>t - C * x ^ K * (1 - x) ^ M\<bar> \<le> 1 / 2 ^ 29" .
  \<comment> \<open>the value is at most 1\<close>
  have t_le: "t \<le> 1"
  proof -
    consider (zero) "K = 0" | (full) "0 < K" "M = 0" | (inner) "0 < K" "0 < M" by blast
    then show ?thesis
    proof cases
      case zero
      then have "c = 1" "p = 1" using c(5) p(5) by (simp_all add: K_def)
      then have "t1 = 1" using t1(2) by (simp add: round_f64_one)
      then show ?thesis unfolding t(2) using q(3) by (intro round_f64_le_one) simp
    next
      case full
      then have "nat k = nat n" using assms(1,2) by (simp add: M_def)
      then have "c = 1" "q = 1" using c(5) q(5) full(2) by simp_all
      then have "t1 \<le> 1" unfolding t1(2) using p(3) by (intro round_f64_le_one) simp
      then show ?thesis unfolding t(2) using \<open>q = 1\<close> by (intro round_f64_le_one) simp
    next
      case inner
      have "nat k < nat n" using inner(2) assms(1,2) by (simp add: M_def)
      moreover have "nat n - nat k = M" using assms(1,2) by (simp add: M_def nat_diff_distrib)
      moreover have "nat n \<le> 10" using assms(3) by simp
      ultimately have "C * x ^ K * (1 - x) ^ M \<le> 1 - 1 / 2 ^ 10"
        using bern_interior_le [of "nat k" "nat n" x] inner(1) assms(4,5)
        by (simp add: C_def K_def)
      moreover have "(1::real) / 2 ^ 29 \<le> 1 / 2 ^ 10" by simp
      ultimately show ?thesis using te by linarith
    qed
  qed
  have "bernstein_f64 (Finite x) k n = Inr (Finite t)"
    using assms(1,2) by (simp add: bernstein_f64_def y(1) p(1) [unfolded K_def]
        q(1) [unfolded M_def] c(1) t1(1) t(1) del: d_mul.simps)
  with t_nonneg t_le te show ?thesis unfolding C_def K_def M_def by blast
qed

lemma partial_sum_unit:
  assumes "0 \<le> x" "x \<le> 1" "j \<le> N"
  shows "0 \<le> (\<Sum>i\<le>j. real (N choose i) * x ^ i * (1 - x) ^ (N - i))"
    and "(\<Sum>i\<le>j. real (N choose i) * x ^ i * (1 - x) ^ (N - i)) \<le> 1"
proof -
  let ?f = "\<lambda>i. real (N choose i) * x ^ i * (1 - x) ^ (N - i)"
  show "0 \<le> sum ?f {..j}" using assms by (intro sum_nonneg) simp
  have "sum ?f {..j} \<le> sum ?f {..N}" using assms by (intro sum_mono2) auto
  then show "sum ?f {..j} \<le> 1" by (simp add: bern_sum_nat)
qed

lemma bernstein_sum_f64_bound:
  assumes "0 \<le> n" "n \<le> 10" "0 \<le> x" "x \<le> 1" "j \<le> nat n"
  shows "\<exists>s. bernstein_sum_f64 (Finite x) n j = Inr (Finite s)
             \<and> \<bar>s - (\<Sum>i\<le>j. real (nat n choose i) * x ^ i * (1 - x) ^ (nat n - i))\<bar>
                   \<le> real (Suc j) / 2 ^ 28"
  using assms(5)
proof (induction j)
  case 0
  obtain t where t: "bernstein_f64 (Finite x) 0 n = Inr (Finite t)" "0 \<le> t" "t \<le> 1"
      "\<bar>t - real (nat n choose nat 0) * x ^ nat 0 * (1 - x) ^ nat (n - 0)\<bar> \<le> 1 / 2 ^ 29"
    using bernstein_f64_term [of 0 n x] assms(1,2,3,4) by auto
  have "\<bar>0 + t\<bar> < 2048" using t(2,3) by simp
  then obtain s where s: "d_add (Finite 0) (Finite t) = Finite s" "\<bar>s - (0 + t)\<bar> \<le> 1 / 2 ^ 43"
    using d_add_small by blast
  have "bernstein_sum_f64 (Finite x) n 0 = Inr (Finite s)"
    by (simp only: bernstein_sum_f64.simps t(1) s(1) sum.case)
  moreover have "\<bar>s - (1 - x) ^ nat n\<bar> \<le> 1 / 2 ^ 28"
  proof -
    have "\<bar>t - (1 - x) ^ nat n\<bar> \<le> 1 / 2 ^ 29" using t(4) by simp
    moreover have "(1::real) / 2 ^ 29 + 1 / 2 ^ 43 \<le> 1 / 2 ^ 28" by simp
    ultimately show ?thesis using s(2) by linarith
  qed
  ultimately show ?case by simp
next
  case (Suc j)
  let ?f = "\<lambda>i. real (nat n choose i) * x ^ i * (1 - x) ^ (nat n - i)"
  from Suc obtain s where s: "bernstein_sum_f64 (Finite x) n j = Inr (Finite s)"
      "\<bar>s - sum ?f {..j}\<bar> \<le> real (Suc j) / 2 ^ 28"
    by auto
  have k: "0 \<le> int (Suc j)" "int (Suc j) \<le> n" using Suc.prems by simp_all
  obtain t where t: "bernstein_f64 (Finite x) (int (Suc j)) n = Inr (Finite t)" "0 \<le> t" "t \<le> 1"
      "\<bar>t - real (nat n choose nat (int (Suc j))) * x ^ nat (int (Suc j))
              * (1 - x) ^ nat (n - int (Suc j))\<bar> \<le> 1 / 2 ^ 29"
    using bernstein_f64_term [OF k assms(2,3,4)] by blast
  have "nat (n - int (Suc j)) = nat n - Suc j" using k by (simp add: nat_diff_distrib)
  moreover have "nat (int (Suc j)) = Suc j" by (rule nat_int)
  ultimately have te: "\<bar>t - ?f (Suc j)\<bar> \<le> 1 / 2 ^ 29" using t(4) by (simp only:)
  have ps: "0 \<le> sum ?f {..j}" "sum ?f {..j} \<le> 1"
    using partial_sum_unit [OF assms(3,4), of j "nat n"] Suc.prems by simp_all
  have sj: "real (Suc j) / 2 ^ 28 \<le> 1"
  proof -
    have "real (Suc j) \<le> 10" using Suc.prems assms(2) by simp
    then show ?thesis by simp
  qed
  have "\<bar>s + t\<bar> < 2048" using s(2) ps sj t(2,3) by linarith
  then obtain s' where s': "d_add (Finite s) (Finite t) = Finite s'"
      "\<bar>s' - (s + t)\<bar> \<le> 1 / 2 ^ 43"
    using d_add_small by blast
  have "bernstein_sum_f64 (Finite x) n (Suc j) = Inr (Finite s')"
    by (simp only: bernstein_sum_f64.simps s(1) t(1) s'(1) sum.case)
  moreover have "\<bar>s' - sum ?f {..Suc j}\<bar> \<le> real (Suc (Suc j)) / 2 ^ 28"
  proof -
    have "(1::real) / 2 ^ 29 + 1 / 2 ^ 43 \<le> 1 / 2 ^ 28" by simp
    moreover have "real (Suc (Suc j)) / 2 ^ 28 = real (Suc j) / 2 ^ 28 + 1 / 2 ^ 28"
      by (simp add: field_simps)
    moreover have "sum ?f {..Suc j} = sum ?f {..j} + ?f (Suc j)" by simp
    ultimately show ?thesis using s(2) te s'(2) by linarith
  qed
  ultimately show ?case by blast
qed

subsection \<open>The assertion and the other errors\<close>




subsection \<open>Partition of unity\<close>

text \<open>
  C5, as the specification states it, fails: the doubles do not sum to exactly 1. At the
  grid point \<open>xs[9] = 9 * (1/99)\<close> of \<open>np.linspace(0, 1, 100)\<close> and \<open>n = 2\<close> the three
  values sum to \<open>1 - 2 ^ -53\<close>, which prints as \<open>0.9999999999999999\<close>.
\<close>

theorem partition_counterexample_f64:
  "d_mul (Finite 9) (d_round (1 / 99)) = Finite (6550690367084358 / 2 ^ 56)
   \<and> (0::real) \<le> 6550690367084358 / 2 ^ 56 \<and> (6550690367084358 / 2 ^ 56 :: real) \<le> 1
   \<and> (0::int) \<le> 2 \<and> (2::int) \<le> 10
   \<and> bernstein_sum_f64 (Finite (6550690367084358 / 2 ^ 56)) 2 (nat 2)
        = Inr (Finite (9007199254740991 / 2 ^ 53))
   \<and> (9007199254740991 / 2 ^ 53 :: real) \<noteq> 1"
proof -
  let ?X = "6550690367084358 / 2 ^ 56 :: real"
  let ?Y = "8188362958855447 / 2 ^ 53 :: real"
  let ?b0 = "7443966326232224 / 2 ^ 53 :: real"
  let ?b1 = "5955173060985780 / 2 ^ 55 :: real"
  let ?b2 = "4764138448788624 / 2 ^ 59 :: real"
  let ?s1 = "8932759591478669 / 2 ^ 53 :: real"
  let ?s2 = "9007199254740991 / 2 ^ 53 :: real"
  have step: "d_round (1 / 99) = Finite (5822835881852763 / 2 ^ 59)"
    by (rule d_round_frac [where s = 59 and m = 5822835881852763]) (simp_all add: rne_def power2_eq_square)
  have x9: "d_mul (Finite 9) (d_round (1 / 99)) = Finite ?X"
    unfolding step d_mul.simps
    by (rule d_round_frac [where s = 56 and m = 6550690367084358]) (simp_all add: rne_def power2_eq_square)
  have y: "d_sub (Finite 1) (Finite ?X) = Finite ?Y"
    unfolding d_sub_def d_neg.simps d_add.simps
    by (rule d_round_frac [where s = 53 and m = 8188362958855447]) (simp_all add: rne_def power2_eq_square)
  have one: "d_mul (Finite 1) (Finite 1) = Finite 1"
    by (simp add: d_round_one)
  \<comment> \<open>k = 0\<close>
  have p0: "py_pow (Finite ?X) 0 = Inr (Finite 1)" by (simp add: py_pow_def)
  have q0: "py_pow (Finite ?Y) 2 = Inr (Finite ?b0)"
    by (rule py_pow_eval, simp,
        rule d_round_frac [where s = 53 and m = 7443966326232224]) (simp_all add: rne_def power2_eq_square)
  have c0: "binom_f64 2 0 = Finite 1" by (simp add: binom_f64_def d_round_one)
  have t0: "d_mul (Finite 1) (Finite ?b0) = Finite ?b0"
    unfolding d_mul.simps
    by (rule d_round_frac [where s = 53 and m = 7443966326232224]) (simp_all add: rne_def power2_eq_square)
  have B0: "bernstein_f64 (Finite ?X) 0 2 = Inr (Finite ?b0)"
    by (rule bernstein_f64_eval [OF _ _ _ _ p0 y q0 c0 one t0]) simp_all
  \<comment> \<open>k = 1\<close>
  have p1: "py_pow (Finite ?X) 1 = Inr (Finite ?X)"
    by (rule py_pow_eval, simp,
        rule d_round_frac [where s = 56 and m = 6550690367084358]) (simp_all add: rne_def power2_eq_square)
  have q1: "py_pow (Finite ?Y) 1 = Inr (Finite ?Y)"
    by (rule py_pow_eval, simp,
        rule d_round_frac [where s = 53 and m = 8188362958855447]) (simp_all add: rne_def power2_eq_square)
  have c1: "binom_f64 2 1 = Finite 2"
    unfolding binom_f64_def
    by (rule d_round_frac [where s = 51 and m = "2 ^ 52"]) (simp_all add: rne_def power2_eq_square)
  have u1: "d_mul (Finite 2) (Finite ?X) = Finite (6550690367084358 / 2 ^ 55)"
    unfolding d_mul.simps
    by (rule d_round_frac [where s = 55 and m = 6550690367084358]) (simp_all add: rne_def power2_eq_square)
  have t1: "d_mul (Finite (6550690367084358 / 2 ^ 55)) (Finite ?Y) = Finite ?b1"
    unfolding d_mul.simps
    by (rule d_round_frac [where s = 55 and m = 5955173060985780]) (simp_all add: rne_def power2_eq_square)
  have B1: "bernstein_f64 (Finite ?X) 1 2 = Inr (Finite ?b1)"
    by (rule bernstein_f64_eval [OF _ _ _ _ p1 y q1 c1 u1 t1]) simp_all
  \<comment> \<open>k = 2\<close>
  have p2: "py_pow (Finite ?X) 2 = Inr (Finite ?b2)"
    by (rule py_pow_eval, simp,
        rule d_round_frac [where s = 59 and m = 4764138448788624]) (simp_all add: rne_def power2_eq_square)
  have q2: "py_pow (Finite ?Y) 0 = Inr (Finite 1)" by (simp add: py_pow_def)
  have c2: "binom_f64 2 2 = Finite 1" by (simp add: binom_f64_def d_round_one)
  have u2: "d_mul (Finite 1) (Finite ?b2) = Finite ?b2"
    unfolding d_mul.simps
    by (rule d_round_frac [where s = 59 and m = 4764138448788624]) (simp_all add: rne_def power2_eq_square)
  have t2: "d_mul (Finite ?b2) (Finite 1) = Finite ?b2"
    unfolding d_mul.simps
    by (rule d_round_frac [where s = 59 and m = 4764138448788624]) (simp_all add: rne_def power2_eq_square)
  have B2: "bernstein_f64 (Finite ?X) 2 2 = Inr (Finite ?b2)"
    by (rule bernstein_f64_eval [OF _ _ _ _ p2 y q2 c2 u2 t2]) simp_all
  \<comment> \<open>the sum\<close>
  have a0: "d_add (Finite 0) (Finite ?b0) = Finite ?b0"
    unfolding d_add.simps
    by (rule d_round_frac [where s = 53 and m = 7443966326232224]) (simp_all add: rne_def power2_eq_square)
  have a1: "d_add (Finite ?b0) (Finite ?b1) = Finite ?s1"
    unfolding d_add.simps
    by (rule d_round_frac [where s = 53 and m = 8932759591478669]) (simp_all add: rne_def power2_eq_square)
  have a2: "d_add (Finite ?s1) (Finite ?b2) = Finite ?s2"
    unfolding d_add.simps
    by (rule d_round_frac [where s = 53 and m = 9007199254740991]) (simp_all add: rne_def power2_eq_square)
  have S0: "bernstein_sum_f64 (Finite ?X) 2 0 = Inr (Finite ?b0)"
    by (simp only: bernstein_sum_f64.simps(1) B0 a0 sum.case)
  have B1': "bernstein_f64 (Finite ?X) (int (Suc 0)) 2 = Inr (Finite ?b1)"
    using B1 by simp
  have S1: "bernstein_sum_f64 (Finite ?X) 2 (Suc 0) = Inr (Finite ?s1)"
    by (subst bernstein_sum_f64.simps(2)) (simp only: S0 B1' a1 sum.case)
  have B2': "bernstein_f64 (Finite ?X) (int (Suc (Suc 0))) 2 = Inr (Finite ?b2)"
    using B2 by simp
  have S2: "bernstein_sum_f64 (Finite ?X) 2 (Suc (Suc 0)) = Inr (Finite ?s2)"
    by (subst bernstein_sum_f64.simps(2)) (simp only: S1 B2' a2 sum.case)
  have "nat 2 = Suc (Suc 0)" by simp
  then have "bernstein_sum_f64 (Finite ?X) 2 (nat 2) = Inr (Finite ?s2)"
    using S2 by (simp only:)
  with x9 show ?thesis by simp
qed

text \<open>
  C5, amended. For every integer \<open>0 \<le> n \<le> 10\<close> and every \<open>x\<close> in \<open>[0, 1]\<close>, the
  values \<open>bernstein(x, k, n)\<close> for \<open>k = 0..n\<close>, computed and added up in double
  precision, are finite and their sum differs from 1 by at most \<open>2 ^ -24\<close>.
\<close>

theorem bernstein_sum_f64_tolerance:
  assumes "0 \<le> n" "n \<le> 10" "0 \<le> x" "x \<le> 1"
  shows "\<exists>s. bernstein_sum_f64 (Finite x) n (nat n) = Inr (Finite s) \<and> \<bar>s - 1\<bar> \<le> 1 / 2 ^ 24"
proof -
  obtain s where s: "bernstein_sum_f64 (Finite x) n (nat n) = Inr (Finite s)"
      "\<bar>s - (\<Sum>i\<le>nat n. real (nat n choose i) * x ^ i * (1 - x) ^ (nat n - i))\<bar>
         \<le> real (Suc (nat n)) / 2 ^ 28"
    using bernstein_sum_f64_bound [OF assms, of "nat n"] by blast
  have "real (Suc (nat n)) \<le> 16" using assms(2) by simp
  then have "real (Suc (nat n)) / 2 ^ 28 \<le> 16 / 2 ^ 28" by (intro divide_right_mono) simp_all
  also have "\<dots> = 1 / 2 ^ 24" by simp
  finally have "\<bar>s - 1\<bar> \<le> 1 / 2 ^ 24" using s(2) by (simp add: bern_sum_nat)
  with s(1) show ?thesis by blast
qed

theorem bernstein_sum_f64_tolerance_witness:
  "(0::int) \<le> 3 \<and> (3::int) \<le> 10 \<and> (0::real) \<le> 1 / 3 \<and> (1 / 3 :: real) \<le> 1
   \<and> (\<exists>s. bernstein_sum_f64 (Finite (1 / 3)) 3 (nat 3) = Inr (Finite s)
           \<and> \<bar>s - 1\<bar> \<le> 1 / 2 ^ 24)"
  using bernstein_sum_f64_tolerance [of 3 "1 / 3"] by simp

subsection \<open>The range of the values\<close>




end
